theory Spec2Isabelle
  imports Complex_Main
begin

section \<open>Data model of \<open>cogs/highlight.py\<close>\<close>

text \<open>
  Times and durations are seconds. The source computes them as Python floats
  (\<open>timedelta.total_seconds()\<close>); the model uses exact reals, so rounding of
  IEEE doubles is outside of it.
\<close>

type_synonym time = real

type_synonym user_id = nat
type_synonym channel_id = nat

text \<open>The key \<open>(message.channel.id, user.id)\<close> of \<open>recently_spoken\<close>.\<close>

type_synonym info = "channel_id \<times> user_id"

definition LAST_SPOKEN_CUTOFF :: time where
  "LAST_SPOKEN_CUTOFF = 10"

definition NEW_MESSAGES_TIMEOUT :: time where
  "NEW_MESSAGES_TIMEOUT = 9"

subsection \<open>\<open>PositiveCounter\<close>\<close>

text \<open>
  \<open>class PositiveCounter(collections.Counter)\<close>: a dict from keys to Python ints.
  Reading a missing key gives 0 and stores nothing (\<open>Counter.__missing__\<close>);
  \<open>__setitem__\<close> stores a positive count and deletes the key otherwise, where the
  \<open>KeyError\<close> of deleting an absent key is suppressed.
\<close>

type_synonym counter = "info \<rightharpoonup> int"

definition getitem :: "counter \<Rightarrow> info \<Rightarrow> int" where
  "getitem c key = (case c key of None \<Rightarrow> 0 | Some n \<Rightarrow> n)"

definition setitem :: "counter \<Rightarrow> info \<Rightarrow> int \<Rightarrow> counter" where
  "setitem c key count = (if count > 0 then c(key \<mapsto> count) else c(key := None))"

text \<open>\<open>self.recently_spoken[info] += 1\<close> and \<open>self.recently_spoken[info] -= 1\<close>.\<close>

definition incr :: "counter \<Rightarrow> info \<Rightarrow> counter" where
  "incr c key = setitem c key (getitem c key + 1)"

definition decr :: "counter \<Rightarrow> info \<Rightarrow> counter" where
  "decr c key = setitem c key (getitem c key - 1)"

text \<open>\<open>key in self.recently_spoken\<close>.\<close>

definition contains :: "counter \<Rightarrow> info \<Rightarrow> bool" where
  "contains c key = (c key \<noteq> None)"

text \<open>The invariant of the data model: every stored count is strictly positive.\<close>

definition positive :: "counter \<Rightarrow> bool" where
  "positive c = (\<forall>key n. c key = Some n \<longrightarrow> 0 < n)"

datatype counter_op = Increment info | Decrement info

fun apply_op :: "counter \<Rightarrow> counter_op \<Rightarrow> counter" where
  "apply_op c (Increment key) = incr c key"
| "apply_op c (Decrement key) = decr c key"

subsection \<open>Errors\<close>

text \<open>
  The exceptions the modelled code can raise: \<open>KeyError\<close> (a multidict lookup that finds
  nothing), \<open>discord.HTTPException\<close> (with its subclasses \<open>Forbidden\<close> and \<open>NotFound\<close>),
  \<open>re.error\<close> (a pattern outside the fragment modelled below), \<open>AttributeError\<close> (reading
  \<open>message.guild.name\<close> of a message without guild), and any other exception of the
  platform client.
\<close>

datatype error = KeyError | HTTPException | ReError | AttributeError | OtherException

subsection \<open>\<open>build_re\<close> and the fragment of \<open>re\<close> it uses\<close>

text \<open>
  Strings are lists of 8-bit characters; the word characters of \<open>\b\<close> and the case folding
  of \<open>(?i)\<close> are the ASCII ones (Python's \<open>str\<close> patterns also know the Unicode letters).
\<close>

definition backslash :: char where
  "backslash = CHR 0x5C"

text \<open>
  \<open>re.escape\<close> (Python 3.7 and later) puts a backslash before each of
  \<^verbatim>\<open>()[]{}?*+-|^$\.&~#\<close>, space, tab, newline, carriage return, vertical tab and form feed.
\<close>

definition special_chars :: string where
  "special_chars = ''()[]{}?*+-|^$'' @ [backslash] @ ''.&~# ''
     @ [CHR 0x09, CHR 0x0A, CHR 0x0D, CHR 0x0B, CHR 0x0C]"

definition re_escape :: "string \<Rightarrow> string" where
  "re_escape pattern =
     concat (map (\<lambda>c. if c \<in> set special_chars then [backslash, c] else [c]) pattern)"

text \<open>\<open>sep.join(xs)\<close>.\<close>

fun join :: "string \<Rightarrow> string list \<Rightarrow> string" where
  "join sep [] = []"
| "join sep [x] = x"
| "join sep (x # y # ys) = x @ sep @ join sep (y # ys)"

text \<open>
  \<open>build_re(highlights)\<close>; the argument is the trigger set in the order in which Python
  iterates it. The result is the pattern string itself.
\<close>

definition build_re :: "string list \<Rightarrow> string" where
  "build_re highlights =
     (let s = ''(?i)'' @ [backslash, CHR ''b''];
          s = s @ join ''|'' (map re_escape highlights);
          s = s @ [backslash, CHR ''b'']
      in s)"

definition is_word :: "char \<Rightarrow> bool" where
  "is_word c = (let n = (of_char c :: nat) in
     (48 \<le> n \<and> n \<le> 57) \<or> (65 \<le> n \<and> n \<le> 90) \<or> (97 \<le> n \<and> n \<le> 122) \<or> n = 95)"

definition lower :: "char \<Rightarrow> char" where
  "lower c = (let n = (of_char c :: nat) in if 65 \<le> n \<and> n \<le> 90 then char_of (n + 32) else c)"

text \<open>
  A compiled pattern of the fragment: a list of alternatives (the branches of the top-level
  \<open>|\<close>, which binds weaker than concatenation), each a sequence of atoms, where an atom is
  the assertion \<open>\b\<close> or one literal character compared without regard to case.
\<close>

datatype atom = Boundary | Lit char

fun prepend :: "atom \<Rightarrow> atom list list option \<Rightarrow> atom list list option" where
  "prepend a (Some (b # bs)) = Some ((a # b) # bs)"
| "prepend a _ = None"

text \<open>
  The parser reads the pattern from left to right: \<open>|\<close> starts a new alternative, \<open>\b\<close> is
  the word boundary, a backslash before a character that is no letter, digit or underscore
  makes that character a literal, and an unescaped character that is not special is a
  literal. Everything else is outside the fragment (\<open>None\<close>).
\<close>

fun parse_alts :: "string \<Rightarrow> atom list list option" where
  "parse_alts [] = Some [[]]"
| "parse_alts (c # cs) =
     (if c = CHR ''|'' then map_option (Cons []) (parse_alts cs)
      else if c = backslash then
        (case cs of
           [] \<Rightarrow> None
         | d # ds \<Rightarrow>
             if d = CHR ''b'' then prepend Boundary (parse_alts ds)
             else if is_word d then None
             else prepend (Lit d) (parse_alts ds))
      else if c \<in> set special_chars then None
      else prepend (Lit c) (parse_alts cs))"

text \<open>Only patterns that start with the global flag \<open>(?i)\<close> are in the fragment.\<close>

definition re_compile :: "string \<Rightarrow> atom list list option" where
  "re_compile pattern =
     (if take 4 pattern = ''(?i)'' then parse_alts (drop 4 pattern) else None)"

text \<open>
  The matcher sees the subject as the character before the current position (if any) and
  the rest of the string from the current position on.
\<close>

definition at_boundary :: "char option \<Rightarrow> string \<Rightarrow> bool" where
  "at_boundary prev rest =
     ((case prev of None \<Rightarrow> False | Some c \<Rightarrow> is_word c)
       \<noteq> (case rest of [] \<Rightarrow> False | c # _ \<Rightarrow> is_word c))"

text \<open>
  Matching one alternative at the current position gives the matched text and the position
  after it.
\<close>

fun match_atoms ::
  "atom list \<Rightarrow> char option \<Rightarrow> string \<Rightarrow> (string \<times> char option \<times> string) option" where
  "match_atoms [] prev rest = Some ([], prev, rest)"
| "match_atoms (Boundary # as) prev rest =
     (if at_boundary prev rest then match_atoms as prev rest else None)"
| "match_atoms (Lit c # as) prev [] = None"
| "match_atoms (Lit c # as) prev (x # xs) =
     (if lower x = lower c
      then (case match_atoms as (Some x) xs of
              None \<Rightarrow> None
            | Some (m, p, r) \<Rightarrow> Some (x # m, p, r))
      else None)"

text \<open>
  The alternatives are tried in the order written and the first that matches wins (the
  backtracking engine of \<open>re\<close>); when the previous match was empty and ended here
  (\<open>must_advance\<close>), an empty match is rejected and the next alternative is tried.
\<close>

fun match_branches ::
  "atom list list \<Rightarrow> bool \<Rightarrow> char option \<Rightarrow> string \<Rightarrow> (string \<times> char option \<times> string) option" where
  "match_branches [] must_advance prev rest = None"
| "match_branches (b # bs) must_advance prev rest =
     (case match_atoms b prev rest of
        None \<Rightarrow> match_branches bs must_advance prev rest
      | Some (m, p, r) \<Rightarrow>
          if must_advance \<and> m = [] then match_branches bs must_advance prev rest
          else Some (m, p, r))"

lemma match_atoms_rest: "match_atoms as prev rest = Some (m, p, r) \<Longrightarrow> rest = m @ r"
  by (induction as prev rest arbitrary: m p r rule: match_atoms.induct)
     (auto split: if_splits option.splits)

lemma match_branches_rest:
  "match_branches bs ma prev rest = Some (m, p, r) \<Longrightarrow> rest = m @ r \<and> (ma \<longrightarrow> m \<noteq> [])"
  by (induction bs) (auto split: if_splits option.splits dest: match_atoms_rest)

text \<open>
  The scan of \<open>re.finditer\<close>: the leftmost match from the current position, then on from
  its end; where nothing matches, one character further. The result lists \<open>match[0]\<close> of
  every match, from left to right.
\<close>

function scan :: "atom list list \<Rightarrow> bool \<Rightarrow> char option \<Rightarrow> string \<Rightarrow> string list" where
  "scan alts must_advance prev rest =
     (case match_branches alts must_advance prev rest of
        Some (m, p, r) \<Rightarrow> m # scan alts (m = []) p r
      | None \<Rightarrow> (case rest of [] \<Rightarrow> [] | c # cs \<Rightarrow> scan alts False (Some c) cs))"
  by pat_completeness auto
termination
proof (relation "measure (\<lambda>(alts, ma, prev, rest). 2 * length rest + (if ma then 0 else 1))")
  show "wf (measure (\<lambda>(alts, ma, prev, rest). 2 * length rest + (if ma then 0 else 1)))"
    by simp
next
  fix alts :: "atom list list" and ma :: bool and prev :: "char option" and rest :: string
    and x2 :: "string \<times> char option \<times> string" and m :: string
    and y :: "char option \<times> string" and p :: "char option" and r :: string
  assume "match_branches alts ma prev rest = Some x2" and "(m, y) = x2" and "(p, r) = y"
  then have "match_branches alts ma prev rest = Some (m, p, r)" by simp
  from match_branches_rest [OF this]
  show "((alts, m = [], p, r), alts, ma, prev, rest)
        \<in> measure (\<lambda>(alts, ma, prev, rest). 2 * length rest + (if ma then 0 else 1))"
    by (cases m) auto
next
  fix alts :: "atom list list" and ma :: bool and prev :: "char option" and rest :: string
    and c :: char and cs :: string
  assume "match_branches alts ma prev rest = None" and "rest = c # cs"
  then show "((alts, False, Some c, cs), alts, ma, prev, rest)
        \<in> measure (\<lambda>(alts, ma, prev, rest). 2 * length rest + (if ma then 0 else 1))"
    by simp
qed

declare scan.simps [simp del]

definition finditer :: "string \<Rightarrow> string \<Rightarrow> error + string list" where
  "finditer pattern string =
     (case re_compile pattern of
        None \<Rightarrow> Inl ReError
      | Some alts \<Rightarrow> Inr (scan alts False None string))"

text \<open>
  The alternatives that the pattern of \<open>build_re\<close> has, before the leading \<open>\b\<close> is put in
  front of the first one: the literal characters of each trigger, and the trailing \<open>\b\<close> at
  the end of the last one.
\<close>

fun branches :: "string list \<Rightarrow> atom list list" where
  "branches [] = [[Boundary]]"
| "branches [h] = [map Lit h @ [Boundary]]"
| "branches (h # h' # hs) = map Lit h # branches (h' # hs)"

text \<open>The literal characters of an alternative.\<close>

fun lits :: "atom list \<Rightarrow> string" where
  "lits [] = []"
| "lits (Boundary # as) = lits as"
| "lits (Lit c # as) = c # lits as"

subsection \<open>Messages and collaborators\<close>

text \<open>
  Of a \<open>discord.Message\<close> the code reads the id, the guild (\<open>None\<close> for a private
  message), the channel id, the author, the content and the creation time. Users are
  represented by their ids: \<open>discord.User\<close> objects compare equal exactly when their ids do.
\<close>

record message =
  mid :: nat
  guild :: "nat option"
  channel :: channel_id
  author :: user_id
  content :: string
  created_at :: time

text \<open>
  What \<open>notification_message\<close> builds: the channel and server named in the text, the
  trigger, the surrounding messages (each with the flag \<open>is_highlight\<close> that
  \<open>format_message\<close> receives), the id of the message linked as original, and the timestamp
  of the embed. The rendering of these into strings is not modelled.
\<close>

record notification =
  mention :: channel_id
  server :: "nat option"
  title :: string
  description :: "(message \<times> bool) list"
  jump :: nat
  timestamp :: time

text \<open>
  The collaborators are parameters of the model, since their code is not part of
  \<open>highlight.py\<close>:
  \<^item> \<open>should_reply\<close> is \<open>self.bot.should_reply\<close>;
  \<^item> \<open>user_known u\<close> says whether \<open>self.bot.get_user(u) or await self.bot.get_user_info(u)\<close>
    finds the user (otherwise the fetch raises \<open>NotFound\<close>, an \<open>HTTPException\<close>);
  \<^item> \<open>history m\<close> is \<open>m.channel.history(around=m, limit=8, reverse=True)\<close>, which may raise;
  \<^item> \<open>send u n\<close> is \<open>u.send(**n)\<close>: \<open>None\<close> when it returns, the exception otherwise;
  \<^item> \<open>channel_highlights\<close> and \<open>blocks\<close> are the two queries of \<open>self.db_cog\<close>, see below;
  \<^item> \<open>set_order ks\<close> is the order in which Python iterates \<open>set(ks)\<close>, which the language
    leaves open.
  They are taken as constant while one handler runs.
\<close>

text \<open>
  Modelled from the spec: the two queries of the cog \<open>Database\<close>, whose code is missing.
  \<open>db_cog.channel_highlights(channel)\<close> gives a multimap from
  trigger text to user ids whose keys compare case-insensitively (here: the list of its
  items in insertion order), and \<open>db_cog.blocks(user)\<close> gives the set of ids of the
  entities which that user has blocked (the command \<open>block\<close> stores
  \<open>db_cog.block(context.author.id, entity.id)\<close>: blocker first, blocked entity second).
\<close>

record env =
  should_reply :: "message \<Rightarrow> bool"
  user_known :: "user_id \<Rightarrow> bool"
  history :: "message \<Rightarrow> error + message list"
  send :: "user_id \<Rightarrow> notification \<Rightarrow> error option"
  channel_highlights :: "channel_id \<Rightarrow> (string \<times> user_id) list"
  blocks :: "user_id \<Rightarrow> user_id set"
  set_order :: "string list \<Rightarrow> string list"

text \<open>
  Modelled from the spec: \<open>highlight_users.getall(key)\<close> of the case-insensitive multidict
  returns the values of all items whose key equals \<open>key\<close> up to case, in insertion order, and
  raises \<open>KeyError\<close> when there is none.
\<close>

definition getall :: "(string \<times> user_id) list \<Rightarrow> string \<Rightarrow> error + user_id list" where
  "getall items key =
     (let vs = map snd (filter (\<lambda>(k, v). map lower k = map lower key) items)
      in if vs = [] then Inl KeyError else Inr vs)"

definition get_user :: "env \<Rightarrow> user_id \<Rightarrow> error + user_id" where
  "get_user e user = (if user_known e user then Inr user else Inl HTTPException)"

text \<open>The owners of a matched text, none when the lookup fails.\<close>

definition owners :: "(string \<times> user_id) list \<Rightarrow> string \<Rightarrow> user_id list" where
  "owners items key = (case getall items key of Inl err \<Rightarrow> [] | Inr users \<Rightarrow> users)"

subsection \<open>The event loop\<close>

text \<open>
  The state shared by the handlers: the clock of the event loop, the counter
  \<open>self.recently_spoken\<close>, the \<open>_track_spoken\<close> coroutines that are suspended in
  \<open>asyncio.sleep\<close> (each with the time at which it wakes up and its \<open>info\<close>), a log of the
  calls of \<open>notify\<close>, and a log of the increments and decrements of \<open>recently_spoken\<close>,
  each with the time at which it was made. Only \<open>asyncio.sleep\<close> takes time; every other step happens at
  the current clock.

  The log has one entry for each call of \<open>notify\<close>, written when the call ends: the time
  at which the call started, the user and the trigger it was called with, and what became
  of it. \<open>Sent t n ok\<close> says that \<open>user.send\<close> was called at time \<open>t\<close> with the notification
  \<open>n\<close>, and whether it returned (\<open>ok\<close>) or raised; \<open>NotBuilt err\<close> says that building the
  notification raised \<open>err\<close>, so that nothing was sent.
\<close>

datatype job_result = Sent time notification bool | NotBuilt error

record job =
  started :: time
  recipient :: user_id
  trigger :: string
  result :: job_result

record loop =
  clock :: time
  recently_spoken :: counter
  sleeping :: "(time \<times> info) list"
  jobs :: "job list"
  changes :: "(time \<times> counter_op) list"

definition fresh :: "time \<Rightarrow> loop" where
  "fresh t = \<lparr>clock = t, recently_spoken = Map.empty, sleeping = [], jobs = [], changes = []\<rparr>"

text \<open>
  \<open>_track_spoken(info, delay=...)\<close> is split at its only suspension point:
  \<open>track_spoken_start\<close> is the code up to \<open>await asyncio.sleep(delay)\<close> (the increment; the
  coroutine then sleeps, and a delay below zero sleeps like zero), \<open>track_spoken_wake\<close> is
  the code after it (the decrement).
\<close>

definition track_spoken_start :: "info \<Rightarrow> time \<Rightarrow> loop \<Rightarrow> loop" where
  "track_spoken_start info delay L =
     L\<lparr>recently_spoken := incr (recently_spoken L) info,
       changes := changes L @ [(clock L, Increment info)],
       sleeping := sleeping L @ [(clock L + max 0 delay, info)]\<rparr>"

definition track_spoken_wake :: "loop \<Rightarrow> time \<times> info \<Rightarrow> loop" where
  "track_spoken_wake L sleeper =
     (case sleeper of (wake, info) \<Rightarrow>
        L\<lparr>recently_spoken := decr (recently_spoken L) info,
          changes := changes L @ [(wake, Decrement info)]\<rparr>)"

text \<open>
  \<open>advance t\<close> lets the loop run until time \<open>t\<close>: every sleeping coroutine whose wake-up time
  has come is resumed, earliest first, and leaves the list.
\<close>

definition advance :: "time \<Rightarrow> loop \<Rightarrow> loop" where
  "advance t L =
     (let due = filter (\<lambda>(wake, info). wake \<le> t) (sleeping L);
          L' = foldl track_spoken_wake L (sort_key fst due)
      in L'\<lparr>clock := t, sleeping := filter (\<lambda>(wake, info). \<not> wake \<le> t) (sleeping L)\<rparr>)"

text \<open>
  \<open>await asyncio.sleep(delay)\<close> in a handler: the loop runs on in the meantime. A handler
  is run from its start to its end; while it sleeps, the \<open>_track_spoken\<close> coroutines that
  come due are resumed, and no other handler is started.
\<close>

definition sleep :: "time \<Rightarrow> loop \<Rightarrow> loop" where
  "sleep delay L = advance (clock L + max 0 delay) L"

text \<open>
  \<open>await self._track_spoken(info, delay=...)\<close> as the awaiting caller sees it: the caller
  goes on when the coroutine has finished, that is after its wake-up.
\<close>

definition track_spoken :: "info \<Rightarrow> time \<Rightarrow> loop \<Rightarrow> loop" where
  "track_spoken info delay L = advance (clock L + max 0 delay) (track_spoken_start info delay L)"

text \<open>
  \<open>on_typing(channel, user, when)\<close>; \<open>datetime.utcnow()\<close> is the clock. The handler is a task
  of the loop, and its only statement after the test is \<open>await self._track_spoken(...)\<close>. So
  the handler is suspended exactly where that coroutine is: starting the handler runs it up
  to the sleep, and the rest of it, the decrement, is what the loop runs at the wake-up
  (\<open>track_spoken_wake\<close> in \<open>advance\<close>), after which the handler ends.
\<close>

definition on_typing :: "channel_id \<Rightarrow> user_id \<Rightarrow> time \<Rightarrow> loop \<Rightarrow> loop" where
  "on_typing chan user when L =
     (let diff = clock L - when in
      if diff < LAST_SPOKEN_CUTOFF
      then track_spoken_start (chan, user) (LAST_SPOKEN_CUTOFF - diff) L
      else L)"

subsection \<open>\<open>highlights\<close>\<close>

text \<open>
  The async generator \<open>highlights(message)\<close> is modelled by the list of the pairs it yields,
  in order, and the exception that ends it, if any. The inner loop runs over the owners of
  one matched text, the outer loop over the matches of \<open>re.finditer\<close>; \<open>seen_users\<close> is
  threaded through both.
\<close>

fun owners_loop ::
  "env \<Rightarrow> message \<Rightarrow> string \<Rightarrow> user_id list \<Rightarrow> user_id set
     \<Rightarrow> (user_id \<times> string) list \<times> user_id set \<times> error option" where
  "owners_loop e m highlight [] seen_users = ([], seen_users, None)"
| "owners_loop e m highlight (user # users) seen_users =
     (if user \<in> blocks e (author m) then owners_loop e m highlight users seen_users
      else case get_user e user of
             Inl err \<Rightarrow> ([], seen_users, Some err)
           | Inr u \<Rightarrow>
               if u \<notin> seen_users \<and> u \<noteq> author m
               then (case owners_loop e m highlight users (insert u seen_users) of
                       (ys, seen', err) \<Rightarrow> ((u, highlight) # ys, seen', err))
               else owners_loop e m highlight users seen_users)"

fun matches_loop ::
  "env \<Rightarrow> message \<Rightarrow> (string \<times> user_id) list \<Rightarrow> string list \<Rightarrow> user_id set
     \<Rightarrow> (user_id \<times> string) list \<times> error option" where
  "matches_loop e m highlight_users [] seen_users = ([], None)"
| "matches_loop e m highlight_users (highlight # rest) seen_users =
     (case getall highlight_users highlight of
        Inl err \<Rightarrow> ([], Some err)
      | Inr users \<Rightarrow>
          (case owners_loop e m highlight users seen_users of
             (ys, seen', Some err) \<Rightarrow> (ys, Some err)
           | (ys, seen', None) \<Rightarrow>
               (case matches_loop e m highlight_users rest seen' of
                  (zs, err) \<Rightarrow> (ys @ zs, err))))"

definition highlights :: "env \<Rightarrow> message \<Rightarrow> (user_id \<times> string) list \<times> error option" where
  "highlights e m =
     (let highlight_users = channel_highlights e (channel m) in
      if highlight_users = [] then ([], None)
      else
        let regex = build_re (set_order e (map fst highlight_users)) in
        case finditer regex (content m) of
          Inl err \<Rightarrow> ([], Some err)
        | Inr matches \<Rightarrow> matches_loop e m highlight_users matches {})"

subsection \<open>\<open>notify\<close> and \<open>on_message\<close>\<close>

definition embed_description :: "env \<Rightarrow> message \<Rightarrow> error + (message \<times> bool) list" where
  "embed_description e m =
     (case history e m of
        Inl err \<Rightarrow> Inl err
      | Inr around \<Rightarrow> Inr (map (\<lambda>x. (x, mid x = mid m)) around))"

definition notification_message ::
  "env \<Rightarrow> user_id \<Rightarrow> string \<Rightarrow> message \<Rightarrow> error + notification" where
  "notification_message e user highlight m =
     (case guild m of
        None \<Rightarrow> Inl AttributeError
      | Some g \<Rightarrow>
          (case embed_description e m of
             Inl err \<Rightarrow> Inl err
           | Inr d \<Rightarrow> Inr \<lparr>mention = channel m, server = guild m, title = highlight,
                           description = d, jump = mid m, timestamp = created_at m\<rparr>))"

text \<open>
  \<open>notify(user, highlight, message)\<close> returns the exception that leaves it, if any, and the
  state of the loop. \<open>contextlib.suppress(discord.HTTPException)\<close> encloses the call of
  \<open>user.send\<close> only; \<open>notification_message\<close> is called before it, outside.
\<close>

text \<open>When the send of a job happened, if it happened, and whether it was accepted.\<close>

definition sent_at :: "job \<Rightarrow> time option" where
  "sent_at j = (case result j of Sent t n ok \<Rightarrow> Some t | NotBuilt err \<Rightarrow> None)"

definition accepted :: "job \<Rightarrow> bool" where
  "accepted j = (case result j of Sent t n ok \<Rightarrow> ok | NotBuilt err \<Rightarrow> False)"

definition log_job :: "time \<Rightarrow> user_id \<Rightarrow> string \<Rightarrow> job_result \<Rightarrow> loop \<Rightarrow> loop" where
  "log_job t user highlight r L =
     L\<lparr>jobs := jobs L @ [\<lparr>started = t, recipient = user, trigger = highlight, result = r\<rparr>]\<rparr>"

definition notify ::
  "env \<Rightarrow> user_id \<Rightarrow> string \<Rightarrow> message \<Rightarrow> loop \<Rightarrow> error option \<times> loop" where
  "notify e user highlight m L =
     (let diff = clock L - created_at m;
          L1 = (if diff < NEW_MESSAGES_TIMEOUT then sleep (NEW_MESSAGES_TIMEOUT - diff) L else L)
      in case notification_message e user highlight m of
           Inl err \<Rightarrow> (Some err, log_job (clock L) user highlight (NotBuilt err) L1)
         | Inr n \<Rightarrow>
             (case send e user n of
                None \<Rightarrow>
                  (None, log_job (clock L) user highlight (Sent (clock L1) n True) L1)
              | Some HTTPException \<Rightarrow>
                  (None, log_job (clock L) user highlight (Sent (clock L1) n False) L1)
              | Some err \<Rightarrow>
                  (Some err, log_job (clock L) user highlight (Sent (clock L1) n False) L1)))"

text \<open>The body of \<open>async for user, highlight in self.highlights(message)\<close>.\<close>

fun notify_loop ::
  "env \<Rightarrow> message \<Rightarrow> (user_id \<times> string) list \<Rightarrow> loop \<Rightarrow> error option \<times> loop" where
  "notify_loop e m [] L = (None, L)"
| "notify_loop e m ((user, highlight) # rest) L =
     (if \<not> contains (recently_spoken L) (channel m, user)
      then (case notify e user highlight m L of
              (Some err, L') \<Rightarrow> (Some err, L')
            | (None, L') \<Rightarrow> notify_loop e m rest L')
      else notify_loop e m rest L)"

text \<open>
  \<open>on_message(message)\<close>, run from its start to its end. An exception that ends the
  generator is raised in the handler after the pairs yielded before it have been handled.
\<close>

definition on_message :: "env \<Rightarrow> message \<Rightarrow> loop \<Rightarrow> error option \<times> loop" where
  "on_message e m L =
     (if guild m = None \<or> \<not> should_reply e m then (None, L)
      else
        case highlights e m of
          (found, raised) \<Rightarrow>
            (case notify_loop e m found L of
               (Some err, L') \<Rightarrow> (Some err, L')
             | (None, L') \<Rightarrow>
                 (case raised of
                    Some err \<Rightarrow> (Some err, L')
                  | None \<Rightarrow>
                      (None, track_spoken (channel m, author m) LAST_SPOKEN_CUTOFF L'))))"

subsection \<open>Leases\<close>

text \<open>
  A lease request \<open>(t, d)\<close> on a key is a call of \<open>_track_spoken(key, delay=d)\<close> started at
  time \<open>t\<close>: the loop runs until \<open>t\<close>, then the coroutine runs up to its sleep.
\<close>

fun request_leases :: "info \<Rightarrow> (time \<times> time) list \<Rightarrow> loop \<Rightarrow> loop" where
  "request_leases key [] L = L"
| "request_leases key ((t, d) # requests) L =
     request_leases key requests (track_spoken_start key d (advance t L))"

text \<open>
  Presence of the key at time \<open>t\<close>, when the requests issued up to \<open>t\<close> have been made and
  the loop has run until \<open>t\<close>.
\<close>

definition is_present :: "info \<Rightarrow> (time \<times> time) list \<Rightarrow> time \<Rightarrow> bool" where
  "is_present key requests t =
     contains (recently_spoken
       (advance t (request_leases key (filter (\<lambda>(ti, di). ti \<le> t) requests) (fresh 0)))) key"

text \<open>
  The counter agrees with the sleeping coroutines: each key is stored with the number of
  \<open>_track_spoken\<close> coroutines that sleep on it, and is absent when there is none.
\<close>

definition pending :: "info \<Rightarrow> (time \<times> info) list \<Rightarrow> nat" where
  "pending key xs = length (filter (\<lambda>(wake, info). info = key) xs)"

definition tracked :: "loop \<Rightarrow> bool" where
  "tracked L =
     (\<forall>key. recently_spoken L key =
        (if pending key (sleeping L) = 0 then None else Some (int (pending key (sleeping L)))))"

text \<open>The counter that stores each key with the count \<open>f key\<close>, and no key with count 0.\<close>

definition enc :: "(info \<Rightarrow> nat) \<Rightarrow> counter" where
  "enc f = (\<lambda>key. if f key = 0 then None else Some (int (f key)))"

subsection \<open>Example collaborators\<close>

text \<open>
  A channel 5 in which user 1 has registered \<open>cat\<close> and user 2 has registered \<open>dog\<close>; nobody
  has blocked anybody, every user can be fetched, the history around a message is the
  message itself, and every send succeeds. The message is written by user 3.
\<close>

definition example_env :: env where
  "example_env =
     \<lparr>should_reply = (\<lambda>m. True), user_known = (\<lambda>u. True),
      history = (\<lambda>m. Inr [m]), send = (\<lambda>u n. None),
      channel_highlights = (\<lambda>c. if c = 5 then [(''cat'', 1), (''dog'', 2)] else []),
      blocks = (\<lambda>u. {}), set_order = remdups\<rparr>"

definition example_message :: "string \<Rightarrow> time \<Rightarrow> message" where
  "example_message text t =
     \<lparr>mid = 7, guild = Some 1, channel = 5, author = 3, content = text, created_at = t\<rparr>"

text \<open>User 1 has registered both \<open>tea\<close> and \<open>coffee\<close>, user 2 has registered \<open>tea\<close>.\<close>

definition two_trigger_env :: env where
  "two_trigger_env =
     example_env\<lparr>channel_highlights := (\<lambda>c. [(''tea'', 1), (''coffee'', 1), (''tea'', 2)])\<rparr>"

text \<open>
  A lease on \<open>key\<close> that wakes up at \<open>w\<close>, seen from a handler that runs meanwhile: the
  coroutine still sleeps, or the clock has reached \<open>w\<close>.
\<close>

definition lease_inv :: "time \<Rightarrow> info \<Rightarrow> loop \<Rightarrow> bool" where
  "lease_inv w key L = (tracked L \<and> ((w, key) \<in> set (sleeping L) \<or> w \<le> clock L))"

text \<open>
  User 1 has blocked user 3, the author of the example message (\<open>blocker_env\<close>); the other
  way round, user 3 has blocked user 1 (\<open>blocked_env\<close>).
\<close>

definition blocker_env :: env where
  "blocker_env = example_env\<lparr>blocks := (\<lambda>u. if u = 1 then {3} else {})\<rparr>"

definition blocked_env :: env where
  "blocked_env = example_env\<lparr>blocks := (\<lambda>u. if u = 3 then {1} else {})\<rparr>"

text \<open>The same channel when Python iterates the set of triggers in the other order.\<close>

definition reversed_env :: env where
  "reversed_env = example_env\<lparr>set_order := (\<lambda>ks. rev (remdups ks))\<rparr>"

text \<open>A platform whose history fetch fails, and one that rejects every direct message.\<close>

definition failing_history_env :: env where
  "failing_history_env = example_env\<lparr>history := (\<lambda>m. Inl HTTPException)\<rparr>"

definition rejecting_env :: env where
  "rejecting_env = example_env\<lparr>send := (\<lambda>u n. Some HTTPException)\<rparr>"

text \<open>The state of the loop when the log does not tell whether a send was accepted.\<close>

fun accept :: "job_result \<Rightarrow> job_result" where
  "accept (Sent t n ok) = Sent t n True"
| "accept (NotBuilt err) = NotBuilt err"

definition forget_accepted :: "loop \<Rightarrow> loop" where
  "forget_accepted L = L\<lparr>jobs := map (\<lambda>j. j\<lparr>result := accept (result j)\<rparr>) (jobs L)\<rparr>"

section \<open>Properties\<close>

subsection \<open>The counter\<close>

lemma positive_empty: "positive Map.empty"
  by (simp add: positive_def)

lemma positive_setitem: "positive c \<Longrightarrow> positive (setitem c key count)"
  by (simp add: positive_def setitem_def)

lemma positive_apply_op: "positive c \<Longrightarrow> positive (apply_op c x)"
  by (cases x) (simp_all add: incr_def decr_def positive_setitem)

lemma positive_foldl: "positive c \<Longrightarrow> positive (foldl apply_op c xs)"
  by (induction xs arbitrary: c) (simp_all add: positive_apply_op)

lemma decr_absent: "c key = None \<Longrightarrow> decr c key = c"
  by (auto simp: decr_def setitem_def getitem_def)

lemma decr_last: "c key = Some 1 \<Longrightarrow> decr c key key = None"
  by (simp add: decr_def setitem_def getitem_def)

text \<open>
  Claim C5. The counter maps keys only to strictly positive counts: whatever sequence of
  increments and decrements is run from the empty counter, no key is stored with a count
  of 0 or less; a decrement of an absent key changes nothing and raises nothing (the
  model's \<open>decr\<close> is total); and a count that reaches 0 removes the key.
\<close>

theorem positive_counter_invariant:
  "positive (foldl apply_op Map.empty xs)
   \<and> (\<forall>c key. c key = None \<longrightarrow> decr c key = c)
   \<and> (\<forall>c key. positive c \<and> getitem c key = 1 \<longrightarrow> \<not> contains (decr c key) key)"
proof (intro conjI allI impI)
  show "positive (foldl apply_op Map.empty xs)"
    by (rule positive_foldl [OF positive_empty])
next
  fix c :: counter and key
  assume "c key = None"
  then show "decr c key = c" by (rule decr_absent)
next
  fix c :: counter and key
  assume "positive c \<and> getitem c key = 1"
  then show "\<not> contains (decr c key) key"
    by (simp add: contains_def decr_def setitem_def)
qed

theorem positive_counter_invariant_witness:
  "foldl apply_op Map.empty [Increment (1, 2), Increment (1, 2), Decrement (1, 2)] (1, 2) = Some 1
   \<and> (0::int) < 1
   \<and> decr Map.empty (1, 2) = Map.empty
   \<and> \<not> contains (decr (incr Map.empty (1, 2)) (1, 2)) (1, 2)"
proof -
  let ?c = "foldl apply_op Map.empty [Increment (1, 2), Increment (1, 2), Decrement (1, 2)]"
  note inst = positive_counter_invariant
    [of "[Increment (1, 2), Increment (1, 2), Decrement (1, 2)]"]
  have v: "?c (1, 2) = Some 1"
    by (simp add: incr_def decr_def setitem_def getitem_def)
  from inst have pos: "positive ?c" by blast
  from pos v have "(0::int) < 1" unfolding positive_def by blast
  moreover from inst have "decr Map.empty (1, 2) = Map.empty" by simp
  moreover have "positive (incr Map.empty (1, 2)) \<and> getitem (incr Map.empty (1, 2)) (1, 2) = 1"
    by (simp add: positive_def incr_def setitem_def getitem_def)
  with inst have "\<not> contains (decr (incr Map.empty (1, 2)) (1, 2)) (1, 2)" by blast
  ultimately show ?thesis using v by simp
qed

subsection \<open>Leases on the event loop\<close>

lemma decr_enc: "decr (enc f) key = enc (f(key := f key - 1))"
  by (auto simp: decr_def setitem_def getitem_def enc_def fun_eq_iff)

lemma incr_enc: "incr (enc f) key = enc (f(key := f key + 1))"
  by (auto simp: incr_def setitem_def getitem_def enc_def fun_eq_iff)

lemma foldl_decr_enc:
  "foldl decr (enc f) ks = enc (\<lambda>key. f key - length (filter (\<lambda>k. k = key) ks))"
proof (induction ks arbitrary: f)
  case Nil
  show ?case by simp
next
  case (Cons k ks)
  have "(\<lambda>key. (f(k := f k - 1)) key - length (filter (\<lambda>k. k = key) ks))
      = (\<lambda>key. f key - length (filter (\<lambda>k. k = key) (k # ks)))"
    by (auto simp: fun_eq_iff)
  then show ?case by (simp add: decr_enc Cons.IH)
qed

lemma tracked_enc: "tracked L \<longleftrightarrow> recently_spoken L = enc (\<lambda>key. pending key (sleeping L))"
  by (auto simp: tracked_def enc_def fun_eq_iff)

lemma wake_fold:
  "foldl track_spoken_wake L ws =
     L\<lparr>recently_spoken := foldl decr (recently_spoken L) (map snd ws),
       changes := changes L @ map (\<lambda>(wake, info). (wake, Decrement info)) ws\<rparr>"
  by (induction ws arbitrary: L) (simp_all add: track_spoken_wake_def case_prod_unfold)

lemma sleeping_advance [simp]:
  "sleeping (advance t L) = filter (\<lambda>(wake, info). \<not> wake \<le> t) (sleeping L)"
  by (simp add: advance_def Let_def)

lemma clock_advance [simp]: "clock (advance t L) = t"
  by (simp add: advance_def Let_def)

lemma jobs_advance [simp]: "jobs (advance t L) = jobs L"
  by (simp add: advance_def Let_def wake_fold)

lemma recently_spoken_advance:
  "recently_spoken (advance t L) =
     foldl decr (recently_spoken L)
       (map snd (sort_key fst (filter (\<lambda>(wake, info). wake \<le> t) (sleeping L))))"
  by (simp add: advance_def Let_def wake_fold)

lemma count_due:
  "length (filter (\<lambda>k. k = key) (map snd (sort_key fst xs))) = pending key xs"
proof -
  have "filter (\<lambda>k. k = key) (map snd (sort_key fst xs))
      = map snd (filter (\<lambda>(wake, info). info = key) (sort_key fst xs))"
    by (simp add: filter_map comp_def case_prod_unfold)
  also have "length \<dots> = length (sort_key fst (filter (\<lambda>(wake, info). info = key) xs))"
    by (simp add: filter_sort)
  finally show ?thesis by (simp add: pending_def)
qed

lemma pending_split:
  "pending key xs = pending key (filter P xs) + pending key (filter (\<lambda>x. \<not> P x) xs)"
  unfolding pending_def by (induction xs) auto

lemma tracked_advance: "tracked L \<Longrightarrow> tracked (advance t L)"
proof -
  assume "tracked L"
  then have rs: "recently_spoken L = enc (\<lambda>key. pending key (sleeping L))"
    by (simp add: tracked_enc)
  let ?due = "filter (\<lambda>(wake, info). wake \<le> t) (sleeping L)"
  let ?rest = "filter (\<lambda>(wake, info). \<not> wake \<le> t) (sleeping L)"
  have diff: "pending key (sleeping L) - pending key ?due = pending key ?rest" for key
    using pending_split [where key = key and P = "\<lambda>(wake, info). wake \<le> t" and xs = "sleeping L"]
    by (simp add: case_prod_unfold)
  have "recently_spoken (advance t L) =
      enc (\<lambda>key. pending key (sleeping L)
                  - length (filter (\<lambda>k. k = key) (map snd (sort_key fst ?due))))"
    unfolding recently_spoken_advance rs foldl_decr_enc ..
  also have "\<dots> = enc (\<lambda>key. pending key ?rest)"
    unfolding count_due diff ..
  finally show ?thesis
    by (simp add: tracked_enc)
qed

lemma tracked_start: "tracked L \<Longrightarrow> tracked (track_spoken_start info delay L)"
proof -
  assume "tracked L"
  then have rs: "recently_spoken L = enc (\<lambda>key. pending key (sleeping L))"
    by (simp add: tracked_enc)
  have "(\<lambda>key. pending key (sleeping L @ [(clock L + max 0 delay, info)]))
      = (\<lambda>key. pending key (sleeping L))(info := pending info (sleeping L) + 1)"
    by (auto simp: pending_def fun_eq_iff)
  then show ?thesis
    by (simp add: tracked_enc track_spoken_start_def rs incr_enc)
qed

lemma tracked_fresh: "tracked (fresh t)"
  by (simp add: tracked_def fresh_def pending_def)

lemma tracked_request_leases: "tracked L \<Longrightarrow> tracked (request_leases key rs L)"
  by (induction key rs L rule: request_leases.induct) (simp_all add: tracked_advance tracked_start)

lemma sleeping_request_leases:
  "\<forall>(ti, di)\<in>set rs. ti \<le> t \<Longrightarrow>
   filter (\<lambda>(wake, info). \<not> wake \<le> t) (sleeping (request_leases key rs L)) =
   filter (\<lambda>(wake, info). \<not> wake \<le> t) (sleeping L @ map (\<lambda>(ti, di). (ti + max 0 di, key)) rs)"
proof (induction key rs L rule: request_leases.induct)
  case (1 key L)
  show ?case by simp
next
  case (2 key ti di requests L)
  then have le: "ti \<le> t" by simp
  have "filter (\<lambda>(wake, info). \<not> wake \<le> t) (filter (\<lambda>(wake, info). \<not> wake \<le> ti) (sleeping L))
      = filter (\<lambda>(wake, info). \<not> wake \<le> t) (sleeping L)"
    using le by (auto simp: filter_filter case_prod_unfold intro!: filter_cong)
  with 2 show ?case
    by (simp add: track_spoken_start_def)
qed

lemma contains_tracked:
  assumes "tracked L"
  shows "contains (recently_spoken L) key \<longleftrightarrow> 0 < pending key (sleeping L)"
proof -
  from assms have "recently_spoken L key =
      (if pending key (sleeping L) = 0 then None else Some (int (pending key (sleeping L))))"
    unfolding tracked_def by blast
  then show ?thesis by (simp add: contains_def)
qed

lemma pending_pos: "0 < pending key xs \<longleftrightarrow> (\<exists>wake. (wake, key) \<in> set xs)"
  by (auto simp: pending_def filter_empty_conv)

lemma pending_leases:
  "0 < pending key (filter (\<lambda>(wake, info). \<not> wake \<le> t) (map (\<lambda>(ti, di). (ti + max 0 di, key)) rs))
   \<longleftrightarrow> (\<exists>(ti, di)\<in>set rs. \<not> ti + max 0 di \<le> t)"
  unfolding pending_pos by force

lemma lease_interval: "ti \<le> t \<Longrightarrow> (\<not> ti + max 0 di \<le> t) = (t < ti + (di::real))"
  by (auto simp: max_def)

text \<open>
  Claim C4. For every sequence of lease requests on one key, issued at times \<open>ti\<close> with
  durations \<open>di\<close>, the key is in \<open>recently_spoken\<close> at time \<open>t\<close> exactly when \<open>t\<close> lies in
  one of the intervals \<open>[ti, ti + di)\<close>: overlapping leases compose by union, the expiry of
  an earlier lease does not clear a later one, and the key is absent from the end of the
  last interval on.
\<close>

theorem leases_compose_by_union:
  "is_present key requests t \<longleftrightarrow> (\<exists>(ti, di)\<in>set requests. ti \<le> t \<and> t < ti + di)"
proof -
  let ?rs = "filter (\<lambda>(ti, di). ti \<le> t) requests"
  let ?L = "advance t (request_leases key ?rs (fresh 0))"
  have tr: "tracked ?L"
    by (intro tracked_advance tracked_request_leases tracked_fresh)
  have "sleeping ?L = filter (\<lambda>(wake, info). \<not> wake \<le> t) (map (\<lambda>(ti, di). (ti + max 0 di, key)) ?rs)"
    using sleeping_request_leases [of ?rs t key "fresh 0"] by (auto simp: fresh_def)
  then have "0 < pending key (sleeping ?L) \<longleftrightarrow> (\<exists>(ti, di)\<in>set ?rs. \<not> ti + max 0 di \<le> t)"
    by (simp only: pending_leases)
  also have "\<dots> \<longleftrightarrow> (\<exists>(ti, di)\<in>set requests. ti \<le> t \<and> \<not> ti + max 0 di \<le> t)"
    by auto
  also have "\<dots> \<longleftrightarrow> (\<exists>(ti, di)\<in>set requests. ti \<le> t \<and> t < ti + di)"
    using lease_interval [of _ t] by (metis (mono_tags, lifting) case_prod_conv case_prodE)
  finally show ?thesis
    using contains_tracked [OF tr, of key] by (simp add: is_present_def)
qed

text \<open>
  The scenario of the comment in \<open>_track_spoken\<close>: two messages three seconds apart. At
  second 10 the first lease has expired and the key is still present; at second 13 it is
  gone.
\<close>

theorem leases_compose_by_union_witness:
  "is_present (5, 3) [(0, 10), (3, 10)] 10 \<and> \<not> is_present (5, 3) [(0, 10), (3, 10)] 13"
  using leases_compose_by_union [of "(5, 3)" "[(0, 10), (3, 10)]" 10]
    leases_compose_by_union [of "(5, 3)" "[(0, 10), (3, 10)]" 13]
  by simp

subsection \<open>The handlers\<close>

lemma present_after_requests:
  assumes "tracked L" and "\<forall>(ti, di)\<in>set rs. ti \<le> t"
  shows "contains (recently_spoken (advance t (request_leases key rs L))) key
     \<longleftrightarrow> (\<exists>wake. (wake, key) \<in> set (sleeping L) \<and> \<not> wake \<le> t)
         \<or> (\<exists>(ti, di)\<in>set rs. \<not> ti + max 0 di \<le> t)"
proof -
  let ?L = "advance t (request_leases key rs L)"
  have tr: "tracked ?L"
    by (intro tracked_advance tracked_request_leases assms(1))
  have "sleeping ?L = filter (\<lambda>(wake, info). \<not> wake \<le> t)
      (sleeping L @ map (\<lambda>(ti, di). (ti + max 0 di, key)) rs)"
    using sleeping_request_leases [OF assms(2), of key L] by simp
  then have "0 < pending key (sleeping ?L)
      \<longleftrightarrow> (\<exists>wake. (wake, key) \<in> set (sleeping L) \<and> \<not> wake \<le> t)
          \<or> (\<exists>(ti, di)\<in>set rs. \<not> ti + max 0 di \<le> t)"
    unfolding pending_pos by force
  with contains_tracked [OF tr, of key] show ?thesis by simp
qed

text \<open>
  Claim C7. A typing-started event whose elapsed time \<open>e = clock - when\<close> is below the
  10-second window takes a lease of exactly \<open>LAST_SPOKEN_CUTOFF - e\<close> seconds: the key is
  incremented at once and the wake-up of the decrement is set to the clock plus
  \<open>LAST_SPOKEN_CUTOFF - e\<close>; for \<open>e\<close> at or above the window no lease is taken and nothing
  changes. What the event does to the presence of its key is to add the interval from the
  event to \<open>when + LAST_SPOKEN_CUTOFF\<close>, the end of the original window, and nothing beyond
  it: at every later time \<open>t\<close>, and whatever leases \<open>rs\<close> are requested on the key between
  the event and \<open>t\<close>, the key is in \<open>recently_spoken\<close> exactly when \<open>e\<close> is below the window
  and \<open>t\<close> is before \<open>when + LAST_SPOKEN_CUTOFF\<close>, or it is there also without the event.
\<close>

theorem typing_leases_remaining_window:
  assumes "tracked L" and "\<forall>(ti, di)\<in>set rs. ti \<le> t"
  shows "(contains (recently_spoken (advance t (request_leases (chan, user) rs
              (on_typing chan user when L)))) (chan, user)
          \<longleftrightarrow> (clock L - when < LAST_SPOKEN_CUTOFF \<and> t < when + LAST_SPOKEN_CUTOFF)
              \<or> contains (recently_spoken (advance t (request_leases (chan, user) rs L))) (chan, user))
     \<and> (clock L - when < LAST_SPOKEN_CUTOFF \<longrightarrow>
          contains (recently_spoken (on_typing chan user when L)) (chan, user)
          \<and> changes (on_typing chan user when L) = changes L @ [(clock L, Increment (chan, user))]
          \<and> sleeping (on_typing chan user when L)
              = sleeping L @ [(clock L + (LAST_SPOKEN_CUTOFF - (clock L - when)), (chan, user))])
     \<and> (LAST_SPOKEN_CUTOFF \<le> clock L - when \<longrightarrow> on_typing chan user when L = L)"
proof (cases "clock L - when < LAST_SPOKEN_CUTOFF")
  case False
  then show ?thesis by (simp add: on_typing_def)
next
  case True
  let ?key = "(chan, user)"
  let ?d = "LAST_SPOKEN_CUTOFF - (clock L - when)"
  let ?L = "track_spoken_start ?key ?d L"
  have on: "on_typing chan user when L = ?L"
    using True by (simp add: on_typing_def)
  have tr: "tracked ?L" by (rule tracked_start [OF assms(1)])
  have wake: "clock L + max 0 ?d = when + LAST_SPOKEN_CUTOFF"
    using True by (simp add: max_def)
  have sl: "sleeping ?L = sleeping L @ [(when + LAST_SPOKEN_CUTOFF, ?key)]"
    using wake by (simp add: track_spoken_start_def)
  have "contains (recently_spoken (advance t (request_leases ?key rs ?L))) ?key
      \<longleftrightarrow> t < when + LAST_SPOKEN_CUTOFF
          \<or> contains (recently_spoken (advance t (request_leases ?key rs L))) ?key"
    unfolding present_after_requests [OF tr assms(2)] present_after_requests [OF assms(1,2)] sl
    by auto
  moreover have "contains (recently_spoken ?L) ?key"
    using contains_tracked [OF tr, of ?key] pending_pos [of ?key "sleeping ?L"] sl by auto
  moreover have "changes ?L = changes L @ [(clock L, Increment ?key)]"
    by (simp add: track_spoken_start_def)
  moreover have "sleeping ?L = sleeping L @ [(clock L + ?d, ?key)]"
    using sl True by (simp add: max_def)
  ultimately show ?thesis
    using True on by simp
qed

text \<open>
  A user types in channel 5 three seconds after second 97, while nothing else goes on, and
  sends a message at second 104: the typing event alone keeps the key until second 107,
  the message until second 114. A typing event that comes 20 seconds late changes nothing.
\<close>

theorem typing_leases_remaining_window_witness:
  "tracked (fresh 100)
   \<and> clock (fresh 100) - 97 < LAST_SPOKEN_CUTOFF
   \<and> contains (recently_spoken (on_typing 5 3 97 (fresh 100))) (5, 3)
   \<and> sleeping (on_typing 5 3 97 (fresh 100)) = [(107, (5, 3))]
   \<and> contains (recently_spoken (advance 106 (on_typing 5 3 97 (fresh 100)))) (5, 3)
   \<and> \<not> contains (recently_spoken (advance 107 (on_typing 5 3 97 (fresh 100)))) (5, 3)
   \<and> contains (recently_spoken (advance 113
        (request_leases (5, 3) [(104, 10)] (on_typing 5 3 97 (fresh 100))))) (5, 3)
   \<and> LAST_SPOKEN_CUTOFF \<le> clock (fresh 100) - 80
   \<and> on_typing 5 3 80 (fresh 100) = fresh 100"
proof -
  have t: "tracked (fresh 100)" by (rule tracked_fresh)
  have e: "clock (fresh 100) - 97 < LAST_SPOKEN_CUTOFF" "LAST_SPOKEN_CUTOFF \<le> clock (fresh 100) - 80"
    by (simp_all add: fresh_def LAST_SPOKEN_CUTOFF_def)
  have none: "\<not> contains (recently_spoken (advance t (fresh 100))) (5, 3)" for t
    by (simp add: fresh_def advance_def contains_def)
  have late: "contains (recently_spoken (advance 113 (request_leases (5, 3) [(104, 10)] (fresh 100)))) (5, 3)"
    by (simp add: fresh_def advance_def track_spoken_start_def track_spoken_wake_def
        incr_def setitem_def getitem_def contains_def)
  from typing_leases_remaining_window [OF t, of "[]" 106 5 3 97]
    typing_leases_remaining_window [OF t, of "[]" 107 5 3 97]
    typing_leases_remaining_window [OF t, of "[(104, 10)]" 113 5 3 97]
    typing_leases_remaining_window [OF t, of "[]" 100 5 3 80]
    t e none late
  show ?thesis
    by (simp add: LAST_SPOKEN_CUTOFF_def fresh_def)
qed

lemma clock_sleep: "clock (sleep delay L) = clock L + max 0 delay"
  by (simp add: sleep_def)

lemma jobs_sleep: "jobs (sleep delay L) = jobs L"
  by (simp add: sleep_def)

text \<open>
  Claim C10. A notification job whose source message was created at \<open>T\<close> and which is
  started at \<open>T + x\<close> calls \<open>user.send\<close> at \<open>T + NEW_MESSAGES_TIMEOUT\<close> when
  \<open>x < NEW_MESSAGES_TIMEOUT\<close> (it sleeps for the remainder), and at once, without any wait,
  when \<open>x \<ge> NEW_MESSAGES_TIMEOUT\<close>.
\<close>

theorem notify_waits_for_settle_window:
  "notification_message e user highlight m = Inr n \<Longrightarrow>
   (\<exists>ok. jobs (snd (notify e user highlight m L)) = jobs L @
      [\<lparr>started = clock L, recipient = user, trigger = highlight,
        result = Sent (if clock L - created_at m < NEW_MESSAGES_TIMEOUT
                       then created_at m + NEW_MESSAGES_TIMEOUT else clock L) n ok\<rparr>])
   \<and> (NEW_MESSAGES_TIMEOUT \<le> clock L - created_at m \<longrightarrow>
        clock (snd (notify e user highlight m L)) = clock L)"
  by (auto simp: notify_def log_job_def Let_def clock_sleep jobs_sleep max_def
      split: option.splits error.splits)

theorem notify_waits_for_settle_window_witness:
  "map sent_at (jobs (snd (notify example_env 1 ''cat'' (example_message ''the cat sat'' 100) (fresh 102)))) = [Some 109]
   \<and> map sent_at (jobs (snd (notify example_env 1 ''cat'' (example_message ''the cat sat'' 100) (fresh 115)))) = [Some 115]
   \<and> clock (snd (notify example_env 1 ''cat'' (example_message ''the cat sat'' 100) (fresh 115))) = 115"
proof -
  let ?m = "example_message ''the cat sat'' 100"
  obtain n where n: "notification_message example_env 1 ''cat'' ?m = Inr n"
    by (simp add: notification_message_def embed_description_def example_env_def
        example_message_def)
  from notify_waits_for_settle_window [OF n, of "fresh 102"]
    notify_waits_for_settle_window [OF n, of "fresh 115"]
  show ?thesis
    by (auto simp: fresh_def example_message_def NEW_MESSAGES_TIMEOUT_def sent_at_def)
qed

subsection \<open>The scan of one message\<close>

lemma owners_loop_props:
  "owners_loop e m h users seen = (ys, seen', err) \<Longrightarrow>
   distinct (map fst ys) \<and> fst ` set ys \<inter> seen = {} \<and> seen' = seen \<union> fst ` set ys
   \<and> (\<forall>(u, h')\<in>set ys. h' = h \<and> u \<in> set users \<and> u \<notin> blocks e (author m) \<and> u \<noteq> author m)
   \<and> (err = None \<longrightarrow> (\<forall>u\<in>set users. u \<notin> blocks e (author m) \<and> u \<noteq> author m \<longrightarrow> u \<in> seen'))"
proof (induction users arbitrary: seen ys seen' err)
  case Nil
  then show ?case by simp
next
  case (Cons user users)
  show ?case
  proof (cases "user \<in> blocks e (author m)")
    case True
    with Cons.prems have "owners_loop e m h users seen = (ys, seen', err)" by simp
    from Cons.IH [OF this] True show ?thesis by auto
  next
    case unblocked: False
    show ?thesis
    proof (cases "user_known e user")
      case False
      with unblocked Cons.prems show ?thesis by (auto simp: get_user_def)
    next
      case known: True
      show ?thesis
      proof (cases "user \<notin> seen \<and> user \<noteq> author m")
        case True
        obtain zs where rec: "owners_loop e m h users (insert user seen) = (zs, seen', err)"
          and ys: "ys = (user, h) # zs"
          using Cons.prems unblocked known True
          by (auto simp: get_user_def split: prod.splits)
        from Cons.IH [OF rec] unblocked True show ?thesis
          unfolding ys by auto
      next
        case False
        with Cons.prems unblocked known
        have "owners_loop e m h users seen = (ys, seen', err)"
          by (auto simp: get_user_def)
        from Cons.IH [OF this] False show ?thesis by auto
      qed
    qed
  qed
qed

lemma matches_loop_props:
  "matches_loop e m hu ms seen = (ys, err) \<Longrightarrow>
   distinct (map fst ys) \<and> fst ` set ys \<inter> seen = {}
   \<and> (\<forall>(u, h)\<in>set ys. u \<notin> blocks e (author m) \<and> u \<noteq> author m
        \<and> find (\<lambda>h'. u \<in> set (owners hu h')) ms = Some h)"
proof (induction ms arbitrary: seen ys err)
  case Nil
  then show ?case by simp
next
  case (Cons h0 rest)
  show ?case
  proof (cases "getall hu h0")
    case (Inl a)
    with Cons.prems show ?thesis by simp
  next
    case (Inr users)
    then have own: "owners hu h0 = users" by (simp add: owners_def)
    obtain ys1 seen1 e1 where ol: "owners_loop e m h0 users seen = (ys1, seen1, e1)"
      by (cases "owners_loop e m h0 users seen") auto
    note P = owners_loop_props [OF ol]
    show ?thesis
    proof (cases e1)
      case (Some a)
      with Cons.prems Inr ol have "ys = ys1" by simp
      with P own show ?thesis by auto
    next
      case None
      obtain zs where rec: "matches_loop e m hu rest seen1 = (zs, err)" and ys: "ys = ys1 @ zs"
        using Cons.prems Inr ol None by (auto split: prod.splits)
      note Q = Cons.IH [OF rec]
      have d: "distinct (map fst (ys1 @ zs))"
        using P Q by auto
      have s: "fst ` set (ys1 @ zs) \<inter> seen = {}"
        using P Q by auto
      have f: "u \<notin> blocks e (author m) \<and> u \<noteq> author m
            \<and> find (\<lambda>h'. u \<in> set (owners hu h')) (h0 # rest) = Some h"
        if "(u, h) \<in> set (ys1 @ zs)" for u h
      proof (cases "(u, h) \<in> set ys1")
        case True
        with P own show ?thesis by auto
      next
        case False
        with that have z: "(u, h) \<in> set zs" by simp
        with Q have surv: "u \<notin> blocks e (author m) \<and> u \<noteq> author m"
          and fnd: "find (\<lambda>h'. u \<in> set (owners hu h')) rest = Some h"
          and fresh_u: "u \<notin> seen1"
          by (auto simp: disjoint_iff image_iff)
        have "u \<notin> set users"
        proof
          assume "u \<in> set users"
          with P None surv have "u \<in> seen1" by blast
          with fresh_u show False by contradiction
        qed
        with surv fnd own show ?thesis by simp
      qed
      from d s f show ?thesis unfolding ys by blast
    qed
  qed
qed

text \<open>
  Claim C8. Within one scan of a message, \<open>highlights\<close> yields at most one pair per user,
  however many of the user's triggers match and however often; the pair of a user carries
  the text of the first match, in left-to-right scan order, that this user owns, and only
  users survive that pass the block test and are not the author.
\<close>

theorem one_result_per_user:
  "highlights e m = (found, raised) \<Longrightarrow>
   distinct (map fst found)
   \<and> (\<forall>(u, h)\<in>set found. u \<notin> blocks e (author m) \<and> u \<noteq> author m
        \<and> (\<exists>matches.
              finditer (build_re (set_order e (map fst (channel_highlights e (channel m)))))
                (content m) = Inr matches
              \<and> find (\<lambda>h'. u \<in> set (owners (channel_highlights e (channel m)) h')) matches = Some h))"
proof (cases "channel_highlights e (channel m) = []")
  case True
  then show "highlights e m = (found, raised) \<Longrightarrow> ?thesis"
    by (auto simp: highlights_def)
next
  case False
  assume hl: "highlights e m = (found, raised)"
  show ?thesis
  proof (cases "finditer (build_re (set_order e (map fst (channel_highlights e (channel m))))) (content m)")
    case (Inl a)
    with hl False show ?thesis by (auto simp: highlights_def Let_def)
  next
    case (Inr matches)
    with hl False
    have "matches_loop e m (channel_highlights e (channel m)) matches {} = (found, raised)"
      by (simp add: highlights_def Let_def)
    from matches_loop_props [OF this] Inr show ?thesis by auto
  qed
qed

theorem one_result_per_user_witness:
  "highlights two_trigger_env (example_message ''Coffee or tea? Tea and more coffee'' 100)
     = ([(1, ''Coffee''), (2, ''tea'')], None)
   \<and> distinct (map fst [(1::nat, ''Coffee''), (2, ''tea'')])"
proof -
  have ev: "highlights two_trigger_env (example_message ''Coffee or tea? Tea and more coffee'' 100)
      = ([(1, ''Coffee''), (2, ''tea'')], None)"
    by code_simp
  from one_result_per_user [OF ev] ev show ?thesis by blast
qed

subsection \<open>Presence suppresses notifications\<close>

lemma lease_inv_advance: "lease_inv w key L \<Longrightarrow> clock L \<le> t \<Longrightarrow> lease_inv w key (advance t L)"
  by (auto simp: lease_inv_def tracked_advance)

lemma lease_inv_sleep: "lease_inv w key L \<Longrightarrow> lease_inv w key (sleep delay L)"
  by (simp add: sleep_def lease_inv_advance)

lemma lease_inv_jobs: "lease_inv w key (L\<lparr>jobs := xs\<rparr>) = lease_inv w key L"
  by (simp add: lease_inv_def tracked_def)

lemma lease_inv_absent:
  assumes "lease_inv w key L" and "\<not> contains (recently_spoken L) key"
  shows "w \<le> clock L"
proof -
  from assms have "pending key (sleeping L) = 0"
    by (simp add: lease_inv_def contains_tracked)
  then have "(w, key) \<notin> set (sleeping L)"
    using pending_pos [of key "sleeping L"] by auto
  with assms(1) show ?thesis by (simp add: lease_inv_def)
qed

lemma notify_jobs:
  "\<exists>new. jobs (snd (notify e user highlight m L)) = jobs L @ new
     \<and> (\<forall>d\<in>set new. recipient d = user \<and> clock L \<le> started d)"
  by (auto simp: notify_def log_job_def Let_def clock_sleep jobs_sleep max_def
      split: sum.splits option.splits error.splits)


lemma notify_lease_inv:
  "lease_inv w key L \<Longrightarrow> lease_inv w key (snd (notify e user highlight m L))"
  by (auto simp: notify_def log_job_def Let_def lease_inv_sleep lease_inv_jobs
      split: sum.splits option.splits error.splits)

lemma notify_loop_jobs_append:
  "\<exists>new. jobs (snd (notify_loop e m found L)) = jobs L @ new"
proof (induction found arbitrary: L)
  case Nil
  show ?case by simp
next
  case (Cons p found)
  obtain user highlight where p: "p = (user, highlight)" by (cases p)
  obtain err L' where n: "notify e user highlight m L = (err, L')"
    by (cases "notify e user highlight m L")
  from notify_jobs [of e user highlight m L] n
  obtain new1 where s1: "jobs L' = jobs L @ new1" by auto
  from Cons.IH [of L'] obtain new2
    where s2: "jobs (snd (notify_loop e m found L')) = jobs L' @ new2" by auto
  from Cons.IH [of L] p n s1 s2 show ?case
    by (cases err) auto
qed

lemma notify_loop_jobs:
  "lease_inv w (channel m, A) L \<Longrightarrow>
   \<exists>new. jobs (snd (notify_loop e m found L)) = jobs L @ new
     \<and> (\<forall>d\<in>set new. recipient d = A \<longrightarrow> w \<le> started d)"
proof (induction found arbitrary: L)
  case Nil
  then show ?case by simp
next
  case (Cons p found)
  obtain user highlight where p: "p = (user, highlight)" by (cases p)
  show ?case
  proof (cases "contains (recently_spoken L) (channel m, user)")
    case True
    with Cons p show ?thesis by simp
  next
    case False
    obtain err L' where n: "notify e user highlight m L = (err, L')"
      by (cases "notify e user highlight m L")
    from notify_jobs [of e user highlight m L] n
    obtain new1 where s1: "jobs L' = jobs L @ new1"
      and r1: "\<forall>d\<in>set new1. recipient d = user \<and> clock L \<le> started d"
      by auto
    have ok1: "\<forall>d\<in>set new1. recipient d = A \<longrightarrow> w \<le> started d"
    proof (intro ballI impI)
      fix d assume d: "d \<in> set new1" and "recipient d = A"
      with r1 have "user = A" and c: "clock L \<le> started d" by auto
      with False Cons.prems have "w \<le> clock L"
        by (auto intro: lease_inv_absent)
      with c show "w \<le> started d" by simp
    qed
    show ?thesis
    proof (cases err)
      case (Some a)
      with p False n s1 ok1 show ?thesis by auto
    next
      case None
      have "lease_inv w (channel m, A) L'"
        using notify_lease_inv [OF Cons.prems, of e user highlight m] n by simp
      from Cons.IH [OF this] obtain new2
        where s2: "jobs (snd (notify_loop e m found L')) = jobs L' @ new2"
          and ok2: "\<forall>d\<in>set new2. recipient d = A \<longrightarrow> w \<le> started d"
        by auto
      have "jobs (snd (notify_loop e m (p # found) L)) = jobs L @ (new1 @ new2)"
        using p False n None s1 s2 by simp
      moreover have "\<forall>d\<in>set (new1 @ new2). recipient d = A \<longrightarrow> w \<le> started d"
        using ok1 ok2 by auto
      ultimately show ?thesis by blast
    qed
  qed
qed

lemma notify_bound:
  assumes "clock L \<le> B" and "created_at m + NEW_MESSAGES_TIMEOUT \<le> B"
  shows "clock (snd (notify e user highlight m L)) \<le> B
     \<and> (\<forall>new. jobs (snd (notify e user highlight m L)) = jobs L @ new
          \<longrightarrow> (\<forall>d\<in>set new. started d \<le> B))"
  using assms
  by (auto simp: notify_def log_job_def Let_def clock_sleep jobs_sleep max_def
      split: sum.splits option.splits error.splits)

lemma notify_loop_bound:
  "clock L \<le> B \<Longrightarrow> created_at m + NEW_MESSAGES_TIMEOUT \<le> B \<Longrightarrow>
   jobs (snd (notify_loop e m found L)) = jobs L @ new \<Longrightarrow> \<forall>d\<in>set new. started d \<le> B"
proof (induction found arbitrary: L new)
  case Nil
  then show ?case by simp
next
  case (Cons p found)
  obtain user highlight where p: "p = (user, highlight)" by (cases p)
  show ?case
  proof (cases "contains (recently_spoken L) (channel m, user)")
    case True
    with Cons p show ?thesis by simp
  next
    case False
    obtain err L' where n: "notify e user highlight m L = (err, L')"
      by (cases "notify e user highlight m L")
    from notify_jobs [of e user highlight m L] n
    obtain new1 where s1: "jobs L' = jobs L @ new1" by auto
    from notify_bound [OF Cons.prems(1,2), of e user highlight] n s1
    have c: "clock L' \<le> B" and b1: "\<forall>d\<in>set new1. started d \<le> B" by auto
    show ?thesis
    proof (cases err)
      case (Some a)
      with p False n s1 b1 Cons.prems(3) show ?thesis by auto
    next
      case None
      from notify_loop_jobs_append [of e m found L'] obtain new2
        where s2: "jobs (snd (notify_loop e m found L')) = jobs L' @ new2" by auto
      from Cons.IH [OF c Cons.prems(2) s2] have b2: "\<forall>d\<in>set new2. started d \<le> B" .
      have "jobs (snd (notify_loop e m (p # found) L)) = jobs L @ (new1 @ new2)"
        using p False n None s1 s2 by simp
      with Cons.prems(3) have "new = new1 @ new2" by simp
      with b1 b2 show ?thesis by auto
    qed
  qed
qed

lemma jobs_track_spoken: "jobs (track_spoken info delay L) = jobs L"
  by (simp add: track_spoken_def track_spoken_start_def)

lemma on_message_jobs:
  "jobs (snd (on_message e m L)) = jobs L
   \<or> jobs (snd (on_message e m L)) = jobs (snd (notify_loop e m (fst (highlights e m)) L))"
  by (auto simp: on_message_def jobs_track_spoken split: prod.splits option.splits)

text \<open>
  Claim C9, as stated, fails: a message that is posted while \<open>A\<close> is present can still
  bring \<open>A\<close> a notification. \<open>highlights\<close> never reads \<open>recently_spoken\<close>; the test is made
  by \<open>on_message\<close> for each pair at the moment the loop reaches it, and the loop reaches a
  pair only when the calls of \<open>notify\<close> for the pairs before it have returned. User 1, who
  owns \<open>cat\<close>, is present in channel 5 from second 100 to second 105. The message
  \<open>a dog and a cat\<close> of user 3 is posted and handled at second 100, while user 1 is present.
  \<open>highlights\<close> yields the pair of user 2 first and the pair of user 1 among its results;
  the call of \<open>notify\<close> for user 2 sleeps until second 109, the lease of user 1 runs out
  meanwhile, the test for user 1 is made at second 109, and user 1 is sent the
  notification for this message.
\<close>

theorem present_user_notified_after_wait:
  "clock (track_spoken_start (5, 1) 5 (fresh 100)) = 100
   \<and> contains (recently_spoken (track_spoken_start (5, 1) 5 (fresh 100))) (5, 1)
   \<and> sleeping (track_spoken_start (5, 1) 5 (fresh 100)) = [(105, (5, 1))]
   \<and> author (example_message ''a dog and a cat'' 100) = 3
   \<and> channel (example_message ''a dog and a cat'' 100) = 5
   \<and> created_at (example_message ''a dog and a cat'' 100) = 100
   \<and> highlights example_env (example_message ''a dog and a cat'' 100)
        = ([(2, ''dog''), (1, ''cat'')], None)
   \<and> fst (on_message example_env (example_message ''a dog and a cat'' 100)
             (track_spoken_start (5, 1) 5 (fresh 100))) = None
   \<and> map recipient (jobs (snd (on_message example_env (example_message ''a dog and a cat'' 100)
                               (track_spoken_start (5, 1) 5 (fresh 100))))) = [2, 1]
   \<and> map trigger (jobs (snd (on_message example_env (example_message ''a dog and a cat'' 100)
                             (track_spoken_start (5, 1) 5 (fresh 100))))) = [''dog'', ''cat'']
   \<and> map started (jobs (snd (on_message example_env (example_message ''a dog and a cat'' 100)
                             (track_spoken_start (5, 1) 5 (fresh 100))))) = [100, 109]
   \<and> map sent_at (jobs (snd (on_message example_env (example_message ''a dog and a cat'' 100)
                             (track_spoken_start (5, 1) 5 (fresh 100))))) = [Some 109, Some 109]
   \<and> map accepted (jobs (snd (on_message example_env (example_message ''a dog and a cat'' 100)
                              (track_spoken_start (5, 1) 5 (fresh 100))))) = [True, True]"
  by code_simp

text \<open>
  Claim C9, amended. Let user \<open>A\<close> hold an active lease on \<open>(channel, A)\<close> that runs until
  \<open>w\<close> when \<open>on_message\<close> starts on a message of that channel. Every call of \<open>notify\<close> for \<open>A\<close>
  that this message causes starts at \<open>w\<close> or later, so that \<open>A\<close> is handed to \<open>notify\<close> at
  no moment at which the lease is active (and the send of a job comes after its start);
  and when the lease outlasts the settle window of the message, that is when \<open>w\<close> is later
  than both the start of the handler and \<open>created_at + NEW_MESSAGES_TIMEOUT\<close>, the message
  causes no call of \<open>notify\<close> for \<open>A\<close> at all.
\<close>

theorem present_user_not_notified:
  assumes "tracked L" and "(w, (channel m, A)) \<in> set (sleeping L)"
  shows "\<exists>new. jobs (snd (on_message e m L)) = jobs L @ new
     \<and> (\<forall>d\<in>set new. recipient d = A \<longrightarrow> w \<le> started d)
     \<and> (max (clock L) (created_at m + NEW_MESSAGES_TIMEOUT) < w \<longrightarrow>
          (\<forall>d\<in>set new. recipient d \<noteq> A))"
proof -
  let ?L' = "snd (notify_loop e m (fst (highlights e m)) L)"
  let ?B = "max (clock L) (created_at m + NEW_MESSAGES_TIMEOUT)"
  from assms have "lease_inv w (channel m, A) L" by (simp add: lease_inv_def)
  from notify_loop_jobs [OF this, of e "fst (highlights e m)"]
  obtain new where s: "jobs ?L' = jobs L @ new"
    and late: "\<forall>d\<in>set new. recipient d = A \<longrightarrow> w \<le> started d"
    by auto
  have "\<forall>d\<in>set new. started d \<le> ?B"
    by (rule notify_loop_bound [OF _ _ s]) simp_all
  with late have none: "?B < w \<longrightarrow> (\<forall>d\<in>set new. recipient d \<noteq> A)"
    by fastforce
  from on_message_jobs [of e m L] show ?thesis
  proof
    assume "jobs (snd (on_message e m L)) = jobs L"
    then show ?thesis by simp
  next
    assume "jobs (snd (on_message e m L)) = jobs ?L'"
    with s late none show ?thesis by auto
  qed
qed

text \<open>
  User 1, who owns \<open>cat\<close>, has spoken in channel 5 at second 100 and is present until second
  110; a message of user 3 with both triggers arrives at once. Only user 2 is notified.
\<close>

theorem present_user_not_notified_witness:
  "tracked (track_spoken_start (5, 1) 10 (fresh 100))
   \<and> (110, (channel (example_message ''a cat and a dog'' 100), 1))
        \<in> set (sleeping (track_spoken_start (5, 1) 10 (fresh 100)))
   \<and> fst (highlights example_env (example_message ''a cat and a dog'' 100))
        = [(1, ''cat''), (2, ''dog'')]
   \<and> (\<exists>new. jobs (snd (on_message example_env (example_message ''a cat and a dog'' 100)
                        (track_spoken_start (5, 1) 10 (fresh 100))))
               = jobs (track_spoken_start (5, 1) 10 (fresh 100)) @ new
             \<and> (\<forall>d\<in>set new. recipient d \<noteq> 1))
   \<and> map recipient (jobs (snd (on_message example_env (example_message ''a cat and a dog'' 100)
                               (track_spoken_start (5, 1) 10 (fresh 100))))) = [2]"
proof -
  let ?L = "track_spoken_start (5, 1) 10 (fresh 100)"
  let ?m = "example_message ''a cat and a dog'' 100"
  have t: "tracked ?L"
    by (intro tracked_start tracked_fresh)
  have s: "(110, (channel ?m, 1)) \<in> set (sleeping ?L)"
    by (simp add: track_spoken_start_def fresh_def example_message_def)
  have h: "fst (highlights example_env ?m) = [(1, ''cat''), (2, ''dog'')]"
    by code_simp
  have b: "max (clock ?L) (created_at ?m + NEW_MESSAGES_TIMEOUT) < 110"
    by (simp add: track_spoken_start_def fresh_def example_message_def NEW_MESSAGES_TIMEOUT_def)
  from present_user_not_notified [OF t s, of example_env] b
  have "\<exists>new. jobs (snd (on_message example_env ?m ?L)) = jobs ?L @ new
      \<and> (\<forall>d\<in>set new. recipient d \<noteq> 1)"
    by blast
  moreover have "map recipient (jobs (snd (on_message example_env ?m ?L))) = [2]"
    by code_simp
  ultimately show ?thesis using t s h by blast
qed

subsection \<open>The pattern of \<open>build_re\<close>\<close>

lemma special_facts:
  "backslash \<in> set special_chars" "CHR ''|'' \<in> set special_chars"
  "CHR ''b'' \<notin> set special_chars" "backslash \<noteq> CHR ''|''" "backslash \<noteq> CHR ''b''"
  by (simp_all add: special_chars_def backslash_def)

lemma special_not_word: "c \<in> set special_chars \<Longrightarrow> \<not> is_word c"
  by (auto simp: special_chars_def backslash_def is_word_def)

lemma parse_alts_escape:
  "parse_alts rest = Some (b # bs) \<Longrightarrow>
   parse_alts (re_escape h @ rest) = Some ((map Lit h @ b) # bs)"
proof (induction h)
  case Nil
  then show ?case by (simp add: re_escape_def)
next
  case (Cons c h)
  then have IH: "parse_alts (re_escape h @ rest) = Some ((map Lit h @ b) # bs)" by simp
  show ?case
  proof (cases "c \<in> set special_chars")
    case True
    then have "re_escape (c # h) @ rest = backslash # c # (re_escape h @ rest)"
      by (simp add: re_escape_def)
    moreover from True have "c \<noteq> CHR ''b''" and "\<not> is_word c"
      using special_facts(3) special_not_word by auto
    ultimately show ?thesis
      using IH special_facts(4) by simp
  next
    case False
    then have "re_escape (c # h) @ rest = c # (re_escape h @ rest)"
      by (simp add: re_escape_def)
    moreover from False have "c \<noteq> CHR ''|''" and "c \<noteq> backslash"
      using special_facts(1,2) by auto
    ultimately show ?thesis
      using IH False by simp
  qed
qed

lemma parse_alts_boundary: "parse_alts [backslash, CHR ''b''] = Some [[Boundary]]"
  using special_facts(4) by simp

lemma parse_alts_join:
  "parse_alts (join ''|'' (map re_escape hs) @ [backslash, CHR ''b'']) = Some (branches hs)"
proof (induction hs rule: branches.induct)
  case 1
  show ?case using parse_alts_boundary by simp
next
  case (2 h)
  show ?case
    using parse_alts_escape [OF parse_alts_boundary, of h] by simp
next
  case (3 h h' hs)
  let ?rest = "join ''|'' (map re_escape (h' # hs)) @ [backslash, CHR ''b'']"
  have "parse_alts (CHR ''|'' # ?rest) = Some ([] # branches (h' # hs))"
    using 3 by simp
  from parse_alts_escape [OF this, of h] show ?case by simp
qed

lemma branches_nonempty: "branches hs \<noteq> []"
  by (induction hs rule: branches.induct) simp_all

text \<open>
  The pattern of every list of triggers is in the fragment, and it compiles to the
  alternatives of \<open>branches\<close> with one \<open>\b\<close> in front of the first: each trigger is literal
  text, the leading \<open>\b\<close> belongs to the first alternative and the trailing \<open>\b\<close> to the
  last.
\<close>

lemma build_re_compiles:
  "re_compile (build_re hs) = Some ((Boundary # hd (branches hs)) # tl (branches hs))"
proof -
  obtain b bs where b: "branches hs = b # bs"
    using branches_nonempty [of hs] by (cases "branches hs") auto
  have "build_re hs = ''(?i)'' @ backslash # CHR ''b'' # (join ''|'' (map re_escape hs) @ [backslash, CHR ''b''])"
    by (simp add: build_re_def Let_def)
  then have "re_compile (build_re hs)
      = parse_alts (backslash # CHR ''b'' # (join ''|'' (map re_escape hs) @ [backslash, CHR ''b'']))"
    by (simp add: re_compile_def)
  also have "\<dots> = prepend Boundary (parse_alts (join ''|'' (map re_escape hs) @ [backslash, CHR ''b'']))"
    using special_facts(4) by simp
  finally show ?thesis
    by (simp add: parse_alts_join b)
qed

lemma match_atoms_lits:
  "match_atoms as prev rest = Some (m, p, r) \<Longrightarrow> map lower m = map lower (lits as)"
  by (induction as prev rest arbitrary: m p r rule: match_atoms.induct)
     (auto split: if_splits option.splits)

lemma match_branches_lits:
  "match_branches bs ma prev rest = Some (m, p, r) \<Longrightarrow>
   \<exists>b\<in>set bs. map lower m = map lower (lits b)"
  by (induction bs) (auto split: if_splits option.splits dest: match_atoms_lits)

lemma scan_lits:
  "m \<in> set (scan alts ma prev rest) \<Longrightarrow> \<exists>b\<in>set alts. map lower m = map lower (lits b)"
proof (induction alts ma prev rest rule: scan.induct)
  case (1 alts ma prev rest)
  show ?case
  proof (cases "match_branches alts ma prev rest")
    case None
    show ?thesis
    proof (cases rest)
      case Nil
      with None "1.prems" show ?thesis
        by (simp add: scan.simps [of alts ma prev "[]"])
    next
      case (Cons c cs)
      with None "1.prems" have "m \<in> set (scan alts False (Some c) cs)"
        by (simp add: scan.simps [of alts ma prev "c # cs"])
      with "1.IH" None Cons show ?thesis by blast
    qed
  next
    case (Some x)
    obtain m' p r where x: "x = (m', p, r)" by (cases x)
    from "1.prems" Some x have "m = m' \<or> m \<in> set (scan alts (m' = []) p r)"
      by (simp add: scan.simps [of alts ma prev rest])
    then show ?thesis
    proof
      assume "m = m'"
      with Some x match_branches_lits show ?thesis by blast
    next
      assume "m \<in> set (scan alts (m' = []) p r)"
      with "1.IH" Some x show ?thesis by blast
    qed
  qed
qed

lemma lits_branches: "hs \<noteq> [] \<Longrightarrow> lits ` set (branches hs) = set hs"
proof (induction hs rule: branches.induct)
  case 1
  then show ?case by simp
next
  case (2 h)
  have "lits (map Lit h @ [Boundary]) = h" by (induction h) simp_all
  then show ?case by simp
next
  case (3 h h' hs)
  have "lits (map Lit h) = h" by (induction h) simp_all
  with 3 show ?case by simp
qed

text \<open>
  So the scan never raises \<open>re.error\<close>, and every text it matches is one of the triggers
  up to case: the special characters of a trigger have no effect as operators.
\<close>

lemma matches_are_triggers:
  assumes "hs \<noteq> []" and "finditer (build_re hs) s = Inr ms" and "m \<in> set ms"
  shows "\<exists>h\<in>set hs. map lower m = map lower h"
proof -
  obtain b bs where b: "branches hs = b # bs"
    using branches_nonempty [of hs] by (cases "branches hs") auto
  let ?alts = "(Boundary # b) # bs"
  from assms(2,3) have "m \<in> set (scan ?alts False None s)"
    by (simp add: finditer_def build_re_compiles b)
  from scan_lits [OF this] obtain a where a: "a \<in> set ?alts" and m: "map lower m = map lower (lits a)"
    by blast
  from a have "lits a \<in> lits ` set (branches hs)"
    unfolding b by auto
  with lits_branches [OF assms(1)] m show ?thesis by auto
qed

text \<open>
  With one trigger the pattern is \<open>\b\<close>, the escaped trigger, \<open>\b\<close>, and the trigger matches as
  a whole word only; an escaped dot matches a dot.
\<close>

lemma single_trigger_is_delimited:
  "finditer (build_re [''cat'']) ''category'' = Inr []
   \<and> finditer (build_re [''cat'']) ''the cat sat'' = Inr [''cat'']
   \<and> finditer (build_re [''c.t'']) ''a cat, a c.t'' = Inr [''c.t'']"
  by code_simp

text \<open>
  Claim C1 says that every trigger matches only when it is delimited by word boundaries on
  both sides, so that \<open>cat\<close> never matches inside \<open>category\<close>. The pattern is built without
  a group around the alternation: for the triggers \<open>cat\<close> and \<open>dog\<close> it is
  \<^verbatim>\<open>(?i)\bcat|dog\b\<close>, in which the first \<open>\b\<close> belongs to the first alternative and the last
  \<open>\b\<close> to the last one. With the set iterated as \<open>cat, dog\<close> the scan finds \<open>cat\<close> inside
  \<open>category\<close>; iterated as \<open>dog, cat\<close> it finds \<open>cat\<close> inside \<open>bobcat\<close>; in both cases
  \<open>highlights\<close> yields a pair for the owner of \<open>cat\<close>.
\<close>

theorem word_boundaries_miss_inner_alternatives:
  "build_re [''cat'', ''dog'']
     = ''(?i)'' @ [backslash, CHR ''b''] @ ''cat|dog'' @ [backslash, CHR ''b'']
   \<and> re_compile (build_re [''cat'', ''dog''])
     = Some [[Boundary, Lit CHR ''c'', Lit CHR ''a'', Lit CHR ''t''],
             [Lit CHR ''d'', Lit CHR ''o'', Lit CHR ''g'', Boundary]]
   \<and> finditer (build_re [''cat'', ''dog'']) ''category'' = Inr [''cat'']
   \<and> finditer (build_re [''dog'', ''cat'']) ''bobcat'' = Inr [''cat'']
   \<and> highlights example_env (example_message ''category'' 100) = ([(1, ''cat'')], None)
   \<and> highlights reversed_env (example_message ''bobcat'' 100) = ([(1, ''cat'')], None)"
  by code_simp

subsection \<open>The block test of \<open>highlights\<close>\<close>

text \<open>
  Claim C2 says that a user who has blocked the author of a message gets no pair from that
  message. The code tests \<open>user in await self.db_cog.blocks(message.author.id)\<close>, which asks
  whether the author has blocked the owner of the trigger. User 1 has blocked user 3 and
  is still highlighted, and notified, by a message of user 3; and when user 3 has blocked
  user 1, user 1, who has blocked nobody, gets no pair.
\<close>

theorem block_is_tested_in_reverse:
  "3 \<in> blocks blocker_env 1
   \<and> author (example_message ''the cat sat'' 100) = 3
   \<and> highlights blocker_env (example_message ''the cat sat'' 100) = ([(1, ''cat'')], None)
   \<and> map recipient (jobs (snd (on_message blocker_env (example_message ''the cat sat'' 100) (fresh 100)))) = [1]
   \<and> blocks blocked_env 1 = {}
   \<and> highlights blocked_env (example_message ''the cat sat'' 100) = ([], None)"
  by code_simp

subsection \<open>Failures inside a notification job\<close>

text \<open>
  Claim C3, as stated, fails: it names the failed history fetch among the failures that
  \<open>notify\<close> absorbs. The history is fetched by \<open>notification_message\<close>, before the block
  of \<open>contextlib.suppress\<close>. On a platform whose history fetch fails, the exception leaves
  \<open>notify\<close> and then \<open>on_message\<close>: at second 109, after the settle wait of the first job,
  the handler ends with the exception, nothing has been sent, the second pair is never
  handled and the lease of the author is never taken (on the working platform the
  handler sends to both users and ends at second 119, after the lease).
\<close>

theorem history_failure_leaves_notify:
  "fst (notify failing_history_env 1 ''cat'' (example_message ''a cat and a dog'' 100) (fresh 100))
     = Some HTTPException
   \<and> fst (highlights failing_history_env (example_message ''a cat and a dog'' 100))
     = [(1, ''cat''), (2, ''dog'')]
   \<and> fst (on_message failing_history_env (example_message ''a cat and a dog'' 100) (fresh 100))
     = Some HTTPException
   \<and> clock (snd (on_message failing_history_env (example_message ''a cat and a dog'' 100) (fresh 100)))
     = 109
   \<and> map result (jobs (snd (on_message failing_history_env (example_message ''a cat and a dog'' 100) (fresh 100))))
     = [NotBuilt HTTPException]
   \<and> clock (snd (on_message example_env (example_message ''a cat and a dog'' 100) (fresh 100)))
     = 119
   \<and> map recipient (jobs (snd (on_message example_env (example_message ''a cat and a dog'' 100) (fresh 100))))
     = [1, 2]"
  by code_simp

lemma forget_fields [simp]:
  "clock (forget_accepted L) = clock L"
  "recently_spoken (forget_accepted L) = recently_spoken L"
  "sleeping (forget_accepted L) = sleeping L"
  "jobs (forget_accepted L) = map (\<lambda>j. j\<lparr>result := accept (result j)\<rparr>) (jobs L)"
  by (simp_all add: forget_accepted_def)

lemma forget_advance: "forget_accepted (advance t L) = advance t (forget_accepted L)"
  by (cases L) (simp add: forget_accepted_def advance_def Let_def wake_fold)

lemma forget_sleep: "forget_accepted (sleep d L) = sleep d (forget_accepted L)"
  by (simp add: sleep_def forget_advance)

lemma forget_start:
  "forget_accepted (track_spoken_start info d L) = track_spoken_start info d (forget_accepted L)"
  by (cases L) (simp add: forget_accepted_def track_spoken_start_def)

lemma forget_track_spoken:
  "forget_accepted (track_spoken info d L) = track_spoken info d (forget_accepted L)"
  by (simp add: track_spoken_def forget_advance forget_start)

lemma forget_log:
  "forget_accepted (log_job t u h r L) = log_job t u h (accept r) (forget_accepted L)"
  by (cases L) (simp add: forget_accepted_def log_job_def)

lemma notification_message_send:
  "notification_message (e\<lparr>send := s\<rparr>) user h m = notification_message e user h m"
  by (simp add: notification_message_def embed_description_def split: option.splits)

lemma highlights_send: "highlights (e\<lparr>send := s\<rparr>) m = highlights e m"
proof -
  have o: "owners_loop (e\<lparr>send := s\<rparr>) m h us seen = owners_loop e m h us seen" for h us seen
    by (induction us arbitrary: seen) (simp_all add: get_user_def)
  have "matches_loop (e\<lparr>send := s\<rparr>) m hu ms seen = matches_loop e m hu ms seen" for hu ms seen
    by (induction ms arbitrary: seen) (auto simp: o split: sum.splits prod.splits option.splits)
  then show ?thesis by (simp add: highlights_def Let_def split: sum.splits)
qed

lemma notify_forget:
  assumes "\<forall>u n. send e u n = None \<or> send e u n = Some HTTPException"
  shows "apsnd forget_accepted (notify e user h m L)
       = notify (e\<lparr>send := (\<lambda>u n. None)\<rparr>) user h m (forget_accepted L)"
proof (cases "notification_message e user h m")
  case (Inl err)
  then show ?thesis
    by (simp add: notify_def Let_def notification_message_send forget_sleep forget_log)
next
  case (Inr n)
  from assms have "send e user n = None \<or> send e user n = Some HTTPException" by blast
  then show ?thesis
    using Inr
    by (auto simp: notify_def Let_def notification_message_send forget_sleep forget_log
        clock_sleep simp del: forget_fields(4))
qed

lemma notify_loop_forget:
  assumes "\<forall>u n. send e u n = None \<or> send e u n = Some HTTPException"
  shows "apsnd forget_accepted (notify_loop e m found L)
       = notify_loop (e\<lparr>send := (\<lambda>u n. None)\<rparr>) m found (forget_accepted L)"
proof (induction found arbitrary: L)
  case Nil
  show ?case by simp
next
  case (Cons p found)
  obtain user h where p: "p = (user, h)" by (cases p)
  obtain err L' where n: "notify e user h m L = (err, L')"
    by (cases "notify e user h m L")
  with notify_forget [OF assms, of user h m L]
  have n': "notify (e\<lparr>send := (\<lambda>u n. None)\<rparr>) user h m (forget_accepted L) = (err, forget_accepted L')"
    by simp
  show ?case
    using Cons.IH [of L] Cons.IH [of L'] p n n'
    by (cases err) simp_all
qed

lemma on_message_forget:
  assumes "\<forall>u n. send e u n = None \<or> send e u n = Some HTTPException"
  shows "apsnd forget_accepted (on_message e m L)
       = on_message (e\<lparr>send := (\<lambda>u n. None)\<rparr>) m (forget_accepted L)"
proof -
  obtain found raised where h: "highlights e m = (found, raised)"
    by (cases "highlights e m")
  obtain err L' where n: "notify_loop e m found L = (err, L')"
    by (cases "notify_loop e m found L")
  with notify_loop_forget [OF assms, of m found L]
  have n': "notify_loop (e\<lparr>send := (\<lambda>u n. None)\<rparr>) m found (forget_accepted L)
      = (err, forget_accepted L')"
    by simp
  show ?thesis
    using h n n'
    by (simp add: on_message_def highlights_send forget_track_spoken
        split: option.splits)
qed

text \<open>
  Claim C3, amended. A send that the platform rejects (\<open>discord.HTTPException\<close> raised by
  \<open>user.send\<close>) is absorbed within \<open>notify\<close>: when the notification could be built, \<open>notify\<close>
  returns without an exception; and apart from the flag that logs whether a send was
  accepted, \<open>notify\<close> and \<open>on_message\<close> end in the same way and in the same state (clock,
  counter, sleeping leases, sequence of jobs) as on a platform that accepts every send.
\<close>

theorem send_rejection_is_absorbed:
  assumes "\<forall>u n. send e u n = None \<or> send e u n = Some HTTPException"
  shows "((\<forall>err. notification_message e user h m \<noteq> Inl err) \<longrightarrow> fst (notify e user h m L) = None)
     \<and> apsnd forget_accepted (notify e user h m L)
       = apsnd forget_accepted (notify (e\<lparr>send := (\<lambda>u n. None)\<rparr>) user h m L)
     \<and> apsnd forget_accepted (on_message e m L)
       = apsnd forget_accepted (on_message (e\<lparr>send := (\<lambda>u n. None)\<rparr>) m L)"
proof (intro conjI impI)
  let ?e = "e\<lparr>send := (\<lambda>u n. None)\<rparr>"
  have ok: "\<forall>u n. send ?e u n = None \<or> send ?e u n = Some HTTPException" by simp
  have same: "?e\<lparr>send := (\<lambda>u n. None)\<rparr> = ?e" by simp
  show "apsnd forget_accepted (notify e user h m L) = apsnd forget_accepted (notify ?e user h m L)"
    using notify_forget [OF assms, of user h m L] notify_forget [OF ok, of user h m L]
    by (simp only: same)
  show "apsnd forget_accepted (on_message e m L) = apsnd forget_accepted (on_message ?e m L)"
    using on_message_forget [OF assms, of m L] on_message_forget [OF ok, of m L]
    by (simp only: same)
next
  assume "\<forall>err. notification_message e user h m \<noteq> Inl err"
  then obtain n where n: "notification_message e user h m = Inr n"
    by (cases "notification_message e user h m") auto
  from assms have "send e user n = None \<or> send e user n = Some HTTPException" by blast
  with n show "fst (notify e user h m L) = None"
    by (auto simp: notify_def Let_def)
qed

theorem send_rejection_is_absorbed_witness:
  "(\<forall>u n. send rejecting_env u n = None \<or> send rejecting_env u n = Some HTTPException)
   \<and> (\<forall>err. notification_message rejecting_env 1 ''cat''
                (example_message ''a cat and a dog'' 100) \<noteq> Inl err)
   \<and> fst (notify rejecting_env 1 ''cat'' (example_message ''a cat and a dog'' 100) (fresh 100)) = None
   \<and> apsnd forget_accepted (on_message rejecting_env (example_message ''a cat and a dog'' 100) (fresh 100))
     = apsnd forget_accepted
         (on_message (rejecting_env\<lparr>send := (\<lambda>u n. None)\<rparr>) (example_message ''a cat and a dog'' 100) (fresh 100))
   \<and> map accepted (jobs (snd (on_message rejecting_env (example_message ''a cat and a dog'' 100) (fresh 100))))
     = [False, False]"
proof -
  let ?m = "example_message ''a cat and a dog'' 100"
  have rej: "\<forall>u n. send rejecting_env u n = None \<or> send rejecting_env u n = Some HTTPException"
    by (simp add: rejecting_env_def)
  have hist: "\<forall>err. notification_message rejecting_env 1 ''cat'' ?m \<noteq> Inl err"
    by (simp add: notification_message_def embed_description_def rejecting_env_def example_env_def
        example_message_def)
  have log: "map accepted (jobs (snd (on_message rejecting_env ?m (fresh 100)))) = [False, False]"
    by code_simp
  from send_rejection_is_absorbed [OF rej, of 1 "''cat''" ?m "fresh 100"] hist
  have "fst (notify rejecting_env 1 ''cat'' ?m (fresh 100)) = None
      \<and> apsnd forget_accepted (on_message rejecting_env ?m (fresh 100))
        = apsnd forget_accepted (on_message (rejecting_env\<lparr>send := (\<lambda>u n. None)\<rparr>) ?m (fresh 100))"
    by blast
  with rej hist log show ?thesis by blast
qed

subsection \<open>What the handler waits for\<close>













end
